theory Spec2Isabelle
  imports Complex_Main "HOL-Library.Word"
begin

unbundle bit_operations_syntax

section \<open>Bytes and serialised float32 arrays\<close>

text \<open>
  A \<open>bytes\<close> object is a list of 8-bit words. A float32 array is handled by the
  encryption envelope only through its 32-bit patterns, so an element is a 32-bit word;
  \<open>ndarray.tobytes\<close> writes each element as four bytes, least significant first, and
  \<open>np.frombuffer(_, dtype='float32')\<close> reads them back, raising \<open>ValueError\<close> when the
  buffer length is not a multiple of four.
\<close>

type_synonym byte = "8 word"
type_synonym float32 = "32 word"

definition f32_tobytes :: "float32 \<Rightarrow> byte list" where
  "f32_tobytes w = [ucast w, ucast (drop_bit 8 w), ucast (drop_bit 16 w), ucast (drop_bit 24 w)]"

definition f32_frombytes :: "byte \<Rightarrow> byte \<Rightarrow> byte \<Rightarrow> byte \<Rightarrow> float32" where
  "f32_frombytes a b c d =
     ucast a OR push_bit 8 (ucast b) OR push_bit 16 (ucast c) OR push_bit 24 (ucast d)"

fun tobytes :: "float32 list \<Rightarrow> byte list" where
  "tobytes [] = []"
| "tobytes (w # ws) = f32_tobytes w @ tobytes ws"

fun frombuffer :: "byte list \<Rightarrow> float32 list option" where
  "frombuffer [] = Some []"
| "frombuffer (a # b # c # d # rest) =
     map_option ((#) (f32_frombytes a b c d)) (frombuffer rest)"
| "frombuffer _ = None"

section \<open>Base64 text encoding\<close>

text \<open>
  \<open>base64.b64encode\<close> and \<open>base64.b64decode\<close> (standard alphabet). The decoder is
  the lenient one the source calls (no \<open>validate\<close> flag): a text with a non-ASCII
  character is rejected, characters outside the alphabet are skipped, decoding stops at a
  complete padding, and a text that ends inside a group of four raises \<open>binascii.Error\<close>.
\<close>

definition b64_char :: "nat \<Rightarrow> char" where
  "b64_char n =
     (if n < 26 then char_of (65 + n)
      else if n < 52 then char_of (71 + n)
      else if n < 62 then char_of (n - 4)
      else if n = 62 then CHR ''+'' else CHR ''/'')"

definition b64_value :: "char \<Rightarrow> nat option" where
  "b64_value c =
     (let k = (of_char c :: nat) in
      if 65 \<le> k \<and> k \<le> 90 then Some (k - 65)
      else if 97 \<le> k \<and> k \<le> 122 then Some (k - 71)
      else if 48 \<le> k \<and> k \<le> 57 then Some (k + 4)
      else if k = 43 then Some 62
      else if k = 47 then Some 63
      else None)"

fun b64encode :: "byte list \<Rightarrow> string" where
  "b64encode [] = []"
| "b64encode [a] =
     [b64_char (unat a div 4), b64_char ((unat a mod 4) * 16), CHR ''='', CHR ''='']"
| "b64encode [a, b] =
     [b64_char (unat a div 4), b64_char ((unat a mod 4) * 16 + unat b div 16),
      b64_char ((unat b mod 16) * 4), CHR ''='']"
| "b64encode (a # b # c # rest) =
     [b64_char (unat a div 4), b64_char ((unat a mod 4) * 16 + unat b div 16),
      b64_char ((unat b mod 16) * 4 + unat c div 64), b64_char (unat c mod 64)]
     @ b64encode rest"

text \<open>
  The decoder's loop, with its state: the position inside the current group of four
  (\<open>quad_pos\<close>), the bits left over from the previous character (\<open>leftchar\<close>) and the
  number of padding characters seen in a row (\<open>pads\<close>). \<open>None\<close> is \<open>binascii.Error\<close>.
\<close>

fun a2b_base64 :: "nat \<Rightarrow> nat \<Rightarrow> nat \<Rightarrow> string \<Rightarrow> byte list option" where
  "a2b_base64 quad_pos leftchar pads [] = (if quad_pos \<noteq> 0 then None else Some [])"
| "a2b_base64 quad_pos leftchar pads (c # cs) =
     (if c = CHR ''='' then
        (if 2 \<le> quad_pos \<and> 4 \<le> quad_pos + (pads + 1) then Some []
         else a2b_base64 quad_pos leftchar (if 2 \<le> quad_pos then pads + 1 else pads) cs)
      else
        (case b64_value c of
           None \<Rightarrow> a2b_base64 quad_pos leftchar pads cs
         | Some v \<Rightarrow>
             (if quad_pos = 0 then a2b_base64 1 v 0 cs
              else if quad_pos = 1 then
                map_option ((#) (of_nat (leftchar * 4 + v div 16))) (a2b_base64 2 (v mod 16) 0 cs)
              else if quad_pos = 2 then
                map_option ((#) (of_nat (leftchar * 16 + v div 4))) (a2b_base64 3 (v mod 4) 0 cs)
              else
                map_option ((#) (of_nat (leftchar * 64 + v))) (a2b_base64 0 0 0 cs))))"

definition b64decode :: "string \<Rightarrow> byte list option" where
  "b64decode s =
     (if \<exists>c \<in> set s. 128 \<le> (of_char c :: nat) then None else a2b_base64 0 0 0 s)"

section \<open>Block padding and cipher-block chaining\<close>

text \<open>
  \<open>Crypto.Util.Padding.pad\<close> and \<open>unpad\<close> with block size 16 (PKCS#7). \<open>None\<close> is the
  \<open>ValueError\<close> that \<open>unpad\<close> raises.
\<close>

definition pad :: "byte list \<Rightarrow> byte list" where
  "pad data_to_pad =
     (let padding_len = 16 - length data_to_pad mod 16
      in data_to_pad @ replicate padding_len (of_nat padding_len))"

definition unpad :: "byte list \<Rightarrow> byte list option" where
  "unpad padded_data =
     (let pdata_len = length padded_data in
      if pdata_len = 0 then None
      else if pdata_len mod 16 \<noteq> 0 then None
      else
        let padding_len = unat (last padded_data) in
        if padding_len < 1 \<or> min 16 pdata_len < padding_len then None
        else if drop (pdata_len - padding_len) padded_data
                \<noteq> replicate padding_len (last padded_data) then None
        else Some (take (pdata_len - padding_len) padded_data))"

text \<open>
  The AES block function itself is the library's; the model takes it as a parameter: a
  keyed function on 16-byte blocks and its inverse. The chaining around it is written out.
\<close>

record block_cipher =
  encrypt_block :: "byte list \<Rightarrow> byte list \<Rightarrow> byte list"
  decrypt_block :: "byte list \<Rightarrow> byte list \<Rightarrow> byte list"

definition block_cipher_ok :: "block_cipher \<Rightarrow> byte list \<Rightarrow> bool" where
  "block_cipher_ok C k \<longleftrightarrow>
     (\<forall>b. length b = 16 \<longrightarrow>
        length (encrypt_block C k b) = 16 \<and> length (decrypt_block C k b) = 16 \<and>
        decrypt_block C k (encrypt_block C k b) = b \<and>
        encrypt_block C k (decrypt_block C k b) = b)"

definition xor_bytes :: "byte list \<Rightarrow> byte list \<Rightarrow> byte list" where
  "xor_bytes xs ys = map2 (XOR) xs ys"

function blocks :: "byte list \<Rightarrow> byte list list" where
  "blocks bs = (if bs = [] then [] else take 16 bs # blocks (drop 16 bs))"
  by pat_completeness auto
termination
  by (relation "measure length") auto

declare blocks.simps [simp del]

fun cbc_enc_blocks :: "(byte list \<Rightarrow> byte list) \<Rightarrow> byte list \<Rightarrow> byte list list \<Rightarrow> byte list list" where
  "cbc_enc_blocks E prev [] = []"
| "cbc_enc_blocks E prev (p # ps) =
     (let c = E (xor_bytes p prev) in c # cbc_enc_blocks E c ps)"

fun cbc_dec_blocks :: "(byte list \<Rightarrow> byte list) \<Rightarrow> byte list \<Rightarrow> byte list list \<Rightarrow> byte list list" where
  "cbc_dec_blocks D prev [] = []"
| "cbc_dec_blocks D prev (c # cs) = xor_bytes (D c) prev # cbc_dec_blocks D c cs"

text \<open>
  \<open>AES.new(key, AES.MODE_CBC, iv)\<close> followed by \<open>encrypt\<close> or \<open>decrypt\<close>. The library
  raises \<open>ValueError\<close> (\<open>None\<close>) for a key that is not 16, 24 or 32 bytes long, an IV that
  is not 16 bytes long, and data that is not a whole number of blocks.
\<close>

definition aes_cbc_encrypt :: "block_cipher \<Rightarrow> byte list \<Rightarrow> byte list \<Rightarrow> byte list \<Rightarrow> byte list option" where
  "aes_cbc_encrypt C key iv data =
     (if length key \<notin> {16, 24, 32} \<or> length iv \<noteq> 16 \<or> length data mod 16 \<noteq> 0 then None
      else Some (concat (cbc_enc_blocks (encrypt_block C key) iv (blocks data))))"

definition aes_cbc_decrypt :: "block_cipher \<Rightarrow> byte list \<Rightarrow> byte list \<Rightarrow> byte list \<Rightarrow> byte list option" where
  "aes_cbc_decrypt C key iv data =
     (if length key \<notin> {16, 24, 32} \<or> length iv \<noteq> 16 \<or> length data mod 16 \<noteq> 0 then None
      else Some (concat (cbc_dec_blocks (decrypt_block C key) iv (blocks data))))"

section \<open>The engine: template encryption and decryption\<close>

text \<open>
  The engine holds \<open>key_hash\<close>, the SHA-256 digest of the configured secret (32 bytes).
  A template is the dictionary \<open>create_template\<close> returns.
\<close>

record engine =
  key_hash :: "byte list"

record 'a template_data =
  template :: "'a list"
  quality_score :: real
  num_frames :: nat

text \<open>
  \<open>encrypt_template\<close>: the 16 bytes drawn by \<open>get_random_bytes(16)\<close> are the argument
  \<open>iv\<close>. Every exception inside the \<open>try\<close> block becomes the result \<open>None\<close>.
\<close>

definition encrypt_template ::
  "block_cipher \<Rightarrow> engine \<Rightarrow> byte list \<Rightarrow> float32 template_data \<Rightarrow> string option" where
  "encrypt_template C self iv template_data =
     (let template_bytes = tobytes (template template_data) in
      case aes_cbc_encrypt C (key_hash self) iv (pad template_bytes) of
        None \<Rightarrow> None
      | Some encrypted \<Rightarrow>
          let encrypted_data = iv @ encrypted
          in Some (b64encode encrypted_data))"

definition decrypt_template ::
  "block_cipher \<Rightarrow> engine \<Rightarrow> string \<Rightarrow> float32 list option" where
  "decrypt_template C self encrypted_b64 =
     (case b64decode encrypted_b64 of
        None \<Rightarrow> None
      | Some encrypted_data \<Rightarrow>
          let iv = take 16 encrypted_data;
              ciphertext = drop 16 encrypted_data
          in (case aes_cbc_decrypt C (key_hash self) iv ciphertext of
                None \<Rightarrow> None
              | Some padded \<Rightarrow>
                  (case unpad padded of
                     None \<Rightarrow> None
                   | Some decrypted \<Rightarrow> frombuffer decrypted)))"

section \<open>Template matching\<close>

text \<open>
  Numeric arrays. The matcher's arithmetic is modelled over the reals: a float is the real
  number it denotes, and rounding is not modelled. A value that is not a finite number
  (an infinity or a NaN, which arise from \<open>0/0\<close> and from the bit patterns of a decrypted
  array) is \<open>NaN\<close>; it is not less than any threshold.
\<close>

datatype npfloat = Fin real | NaN

fun finite_values :: "npfloat list \<Rightarrow> real list option" where
  "finite_values [] = Some []"
| "finite_values (Fin x # xs) = map_option ((#) x) (finite_values xs)"
| "finite_values (NaN # xs) = None"

text \<open>The value of a float32 bit pattern (IEEE 754 binary32).\<close>

definition f32_value :: "float32 \<Rightarrow> npfloat" where
  "f32_value w =
     (let e = unat (take_bit 8 (drop_bit 23 w));
          m = unat (take_bit 23 w);
          s = (if bit w 31 then - 1 else 1 :: real)
      in if e = 255 then NaN
         else if e = 0 then Fin (s * (real m / 2 ^ 23) / 2 ^ 126)
         else if 127 \<le> e then Fin (s * (1 + real m / 2 ^ 23) * 2 ^ (e - 127))
         else Fin (s * (1 + real m / 2 ^ 23) / 2 ^ (127 - e)))"

text \<open>
  An argument of \<open>match_templates\<close>: a numeric array, a string (an encrypted
  template), or \<open>None\<close>.
\<close>

datatype template_arg = Array "npfloat list" | Str string | PyNone

record match_result =
  match :: bool
  confidence :: npfloat
  distance :: "npfloat option"
  similarity :: "npfloat option"
  error :: "string option"

fun digits :: "nat \<Rightarrow> nat \<Rightarrow> string" where
  "digits 0 n = []"
| "digits (Suc fuel) n =
     (if n < 10 then [char_of (48 + n)] else digits fuel (n div 10) @ [char_of (48 + n mod 10)])"

definition str_nat :: "nat \<Rightarrow> string" where
  "str_nat n = digits (Suc n) n"

text \<open>
  \<open>np.dot\<close> of two one-dimensional arrays: \<open>ValueError\<close> with this message when
  the lengths differ.
\<close>

definition shapes_not_aligned :: "nat \<Rightarrow> nat \<Rightarrow> string" where
  "shapes_not_aligned n m =
     ''shapes ('' @ str_nat n @ '',) and ('' @ str_nat m @ '',) not aligned: ''
     @ str_nat n @ '' (dim 0) != '' @ str_nat m @ '' (dim 0)''"

definition dot :: "real list \<Rightarrow> real list \<Rightarrow> real" where
  "dot xs ys = sum_list (map2 (*) xs ys)"

text \<open>
  \<open>scipy.spatial.distance.cosine\<close>: \<open>1 - u.v / sqrt(u.u * v.v)\<close>, clipped to
  \<open>[0, 2]\<close>; \<open>Inl\<close> is the exception of \<open>np.dot\<close>.
\<close>

definition cosine :: "npfloat list \<Rightarrow> npfloat list \<Rightarrow> string + npfloat" where
  "cosine u v =
     (if length u \<noteq> length v then Inl (shapes_not_aligned (length u) (length v))
      else
        (case (finite_values u, finite_values v) of
           (Some xs, Some ys) \<Rightarrow>
             let uv = dot xs ys; uu = dot xs xs; vv = dot ys ys in
             if sqrt (uu * vv) = 0 then Inr NaN
             else Inr (Fin (max 0 (min 2 (1 - uv / sqrt (uu * vv)))))
         | _ \<Rightarrow> Inr NaN))"

text \<open>\<open>np.linalg.norm(template1 - template2)\<close> for arrays of equal length.\<close>

definition norm_diff :: "npfloat list \<Rightarrow> npfloat list \<Rightarrow> npfloat" where
  "norm_diff u v =
     (case (finite_values u, finite_values v) of
        (Some xs, Some ys) \<Rightarrow> Fin (sqrt (sum_list (map (\<lambda>d. d * d) (map2 (-) xs ys))))
      | _ \<Rightarrow> NaN)"

fun np_div :: "npfloat \<Rightarrow> real \<Rightarrow> npfloat" where
  "np_div (Fin a) b = (if b = 0 then NaN else Fin (a / b))"
| "np_div NaN b = NaN"

fun one_minus :: "npfloat \<Rightarrow> npfloat" where
  "one_minus (Fin a) = Fin (1 - a)"
| "one_minus NaN = NaN"

fun average2 :: "npfloat \<Rightarrow> npfloat \<Rightarrow> npfloat" where
  "average2 (Fin a) (Fin b) = Fin ((a + b) / 2)"
| "average2 _ _ = NaN"

fun np_less :: "npfloat \<Rightarrow> real \<Rightarrow> bool" where
  "np_less (Fin a) t = (a < t)"
| "np_less NaN t = False"

text \<open>The step \<open>if isinstance(template, str): template = self.decrypt_template(template)\<close>.\<close>

definition decrypt_if_needed ::
  "block_cipher \<Rightarrow> engine \<Rightarrow> template_arg \<Rightarrow> npfloat list option" where
  "decrypt_if_needed C self t =
     (case t of
        Str s \<Rightarrow> map_option (map f32_value) (decrypt_template C self s)
      | Array a \<Rightarrow> Some a
      | PyNone \<Rightarrow> None)"

text \<open>
  The body of the \<open>try\<close> block of \<open>match_templates\<close>: \<open>Inl msg\<close> is an exception
  with message \<open>msg\<close>, \<open>Inr\<close> a returned dictionary.
\<close>

definition match_templates_try ::
  "block_cipher \<Rightarrow> engine \<Rightarrow> template_arg \<Rightarrow> template_arg \<Rightarrow> real \<Rightarrow> string + match_result" where
  "match_templates_try C self t1 t2 threshold =
     (case (decrypt_if_needed C self t1, decrypt_if_needed C self t2) of
        (Some template1, Some template2) \<Rightarrow>
          (case cosine template1 template2 of
             Inl msg \<Rightarrow> Inl msg
           | Inr c \<Rightarrow>
               let similarity' = one_minus c;
                   distance' = norm_diff template1 template2;
                   normalized_distance = np_div distance' (sqrt (real (length template1)));
                   confidence' = average2 similarity' (one_minus normalized_distance);
                   match' = np_less normalized_distance threshold
               in Inr \<lparr>match = match', confidence = confidence',
                        distance = Some normalized_distance,
                        similarity = Some similarity', error = None\<rparr>)
      | _ \<Rightarrow>
          Inr \<lparr>match = False, confidence = Fin 0, distance = None, similarity = None,
               error = Some ''Decryption failed''\<rparr>)"

text \<open>\<open>match_templates\<close>: the \<open>except\<close> clause turns an exception into a result.\<close>

definition match_templates ::
  "block_cipher \<Rightarrow> engine \<Rightarrow> template_arg \<Rightarrow> template_arg \<Rightarrow> real \<Rightarrow> match_result" where
  "match_templates C self t1 t2 threshold =
     (case match_templates_try C self t1 t2 threshold of
        Inr result \<Rightarrow> result
      | Inl msg \<Rightarrow>
          \<lparr>match = False, confidence = Fin 0, distance = None, similarity = None,
           error = Some msg\<rparr>)"

section \<open>Concrete instances used to exercise the theorems\<close>

text \<open>
  A keyed toy block cipher (exclusive-or with the first 16 key bytes) standing in for the AES
  block function, an engine with a fixed 32-byte key hash, and a small float32 template
  (the bit patterns of 1.0, 2.0, 0.0, -1.0, 0.5).
\<close>

definition xor_cipher :: block_cipher where
  "xor_cipher =
     \<lparr>encrypt_block = (\<lambda>k b. xor_bytes b (take 16 k)),
      decrypt_block = (\<lambda>k b. xor_bytes b (take 16 k))\<rparr>"

definition demo_engine :: engine where
  "demo_engine = \<lparr>key_hash = replicate 32 90\<rparr>"

definition demo_template :: "float32 template_data" where
  "demo_template =
     \<lparr>template = [1065353216, 1073741824, 0, 3212836864, 1056964608],
      quality_score = 1, num_frames = 3\<rparr>"

section \<open>Properties of the serialisation layers\<close>

subsection \<open>float32 arrays and bytes\<close>

lemma f32_frombytes_tobytes:
  "f32_frombytes (ucast w) (ucast (drop_bit 8 w)) (ucast (drop_bit 16 w)) (ucast (drop_bit 24 w)) = w"
  unfolding f32_frombytes_def
proof (rule bit_word_eqI)
  fix n assume "n < LENGTH(32)"
  then have n: "n < 32" by simp
  consider "n < 8" | "8 \<le> n" "n < 16" | "16 \<le> n" "n < 24" | "24 \<le> n" by linarith
  then show "bit (ucast (ucast w :: byte) OR push_bit 8 (ucast (ucast (drop_bit 8 w) :: byte)) OR
                 push_bit 16 (ucast (ucast (drop_bit 16 w) :: byte)) OR
                 push_bit 24 (ucast (ucast (drop_bit 24 w) :: byte)) :: float32) n = bit w n"
    using n by cases (auto simp: bit_simps)
qed

lemma f32_tobytes_frombytes: "f32_tobytes (f32_frombytes a b c d) = [a, b, c, d]"
  unfolding f32_frombytes_def f32_tobytes_def
  apply simp
  apply (intro conjI; rule bit_word_eqI)
     apply (auto simp: bit_simps dest: bit_imp_le_length)
  done

lemma frombuffer_tobytes: "frombuffer (tobytes ws) = Some ws"
  by (induction ws) (simp_all add: f32_tobytes_def f32_frombytes_tobytes)

lemma tobytes_frombuffer: "frombuffer bs = Some ws \<Longrightarrow> tobytes ws = bs"
  by (induction bs arbitrary: ws rule: frombuffer.induct) (auto simp: f32_tobytes_frombytes)

lemma length_tobytes: "length (tobytes ws) = 4 * length ws"
  by (induction ws) (simp_all add: f32_tobytes_def)

subsection \<open>Base64\<close>

lemma b64_value_char: "n < 64 \<Longrightarrow> b64_value (b64_char n) = Some n"
  unfolding b64_value_def b64_char_def
  by (auto simp: Let_def)

lemma b64_value_pad: "b64_value CHR ''='' = None"
  by (simp add: b64_value_def)

lemma b64_char_not_pad: "n < 64 \<Longrightarrow> b64_char n \<noteq> CHR ''=''"
  using b64_value_char [of n] b64_value_pad by auto

lemma b64_char_ascii: "n < 64 \<Longrightarrow> (of_char (b64_char n) :: nat) < 128"
  unfolding b64_char_def by auto

lemma sextets:
  fixes a b c :: byte
  shows "unat a div 4 < 64" "(unat a mod 4) * 16 + unat b div 16 < 64"
    "(unat b mod 16) * 4 + unat c div 64 < 64" "unat c mod 64 < 64"
    "(unat a mod 4) * 16 < 64" "(unat b mod 16) * 4 < 64"
proof -
  have "unat a < 256" "unat b < 256" "unat c < 256"
    using unsigned_less [of a] unsigned_less [of b] unsigned_less [of c] by simp_all
  then show "unat a div 4 < 64" "(unat a mod 4) * 16 + unat b div 16 < 64"
    "(unat b mod 16) * 4 + unat c div 64 < 64" "unat c mod 64 < 64"
    "(unat a mod 4) * 16 < 64" "(unat b mod 16) * 4 < 64"
    by auto
qed

lemma div_mod_pack:
  fixes q z n :: nat
  assumes "z < n"
  shows "(q * n + z) div n = q" "(q * n + z) mod n = z"
  using assms by simp_all

lemma bytes_back:
  fixes a b c :: byte
  shows "(of_nat ((unat a div 4) * 4 + ((unat a mod 4) * 16 + unat b div 16) div 16) :: byte) = a"
    "(of_nat ((((unat a mod 4) * 16 + unat b div 16) mod 16) * 16 + ((unat b mod 16) * 4 + unat c div 64) div 4) :: byte) = b"
    "(of_nat ((((unat b mod 16) * 4 + unat c div 64) mod 4) * 64 + unat c mod 64) :: byte) = c"
    "(of_nat ((unat a div 4) * 4 + ((unat a mod 4) * 16) div 16) :: byte) = a"
    "(of_nat ((((unat a mod 4) * 16 + unat b div 16) mod 16) * 16 + ((unat b mod 16) * 4) div 4) :: byte) = b"
proof -
  have "unat b < 256" "unat c < 256"
    using unsigned_less [of b] unsigned_less [of c] by simp_all
  then have B: "unat b div 16 < 16" "unat c div 64 < 4"
    by (simp_all add: less_mult_imp_div_less)
  have 1: "(unat a div 4) * 4 + ((unat a mod 4) * 16 + unat b div 16) div 16 = unat a"
    by (simp only: div_mod_pack(1) [OF B(1)] div_mult_mod_eq)
  have 2: "(((unat a mod 4) * 16 + unat b div 16) mod 16) * 16 + ((unat b mod 16) * 4 + unat c div 64) div 4 = unat b"
    by (simp only: div_mod_pack(2) [OF B(1)] div_mod_pack(1) [OF B(2)] div_mult_mod_eq)
  have 3: "(((unat b mod 16) * 4 + unat c div 64) mod 4) * 64 + unat c mod 64 = unat c"
    by (simp only: div_mod_pack(2) [OF B(2)] div_mult_mod_eq)
  have 4: "(unat a div 4) * 4 + ((unat a mod 4) * 16) div 16 = unat a"
    by simp
  have "((unat b mod 16) * 4) div 4 = unat b mod 16" by simp
  then have 5: "(((unat a mod 4) * 16 + unat b div 16) mod 16) * 16 + ((unat b mod 16) * 4) div 4 = unat b"
    by (simp only: div_mod_pack(2) [OF B(1)] div_mult_mod_eq)
  show "(of_nat ((unat a div 4) * 4 + ((unat a mod 4) * 16 + unat b div 16) div 16) :: byte) = a"
    "(of_nat ((((unat a mod 4) * 16 + unat b div 16) mod 16) * 16 + ((unat b mod 16) * 4 + unat c div 64) div 4) :: byte) = b"
    "(of_nat ((((unat b mod 16) * 4 + unat c div 64) mod 4) * 64 + unat c mod 64) :: byte) = c"
    "(of_nat ((unat a div 4) * 4 + ((unat a mod 4) * 16) div 16) :: byte) = a"
    "(of_nat ((((unat a mod 4) * 16 + unat b div 16) mod 16) * 16 + ((unat b mod 16) * 4) div 4) :: byte) = b"
    unfolding 1 2 3 4 5 by simp_all
qed

lemma a2b_quad:
  assumes "s1 < 64" "s2 < 64" "s3 < 64" "s4 < 64"
  shows "a2b_base64 0 l p (b64_char s1 # b64_char s2 # b64_char s3 # b64_char s4 # cs) =
     map_option (\<lambda>r. of_nat (s1 * 4 + s2 div 16) # of_nat ((s2 mod 16) * 16 + s3 div 4)
        # of_nat ((s3 mod 4) * 64 + s4) # r) (a2b_base64 0 0 0 cs)"
  using assms by (simp add: b64_value_char b64_char_not_pad option.map_comp comp_def)

lemma a2b_pad1:
  assumes "s1 < 64" "s2 < 64" "s3 < 64"
  shows "a2b_base64 0 l p [b64_char s1, b64_char s2, b64_char s3, CHR ''=''] =
     Some [of_nat (s1 * 4 + s2 div 16), of_nat ((s2 mod 16) * 16 + s3 div 4)]"
  using assms by (simp add: b64_value_char b64_char_not_pad)

lemma a2b_pad2:
  assumes "s1 < 64" "s2 < 64"
  shows "a2b_base64 0 l p [b64_char s1, b64_char s2, CHR ''='', CHR ''=''] =
     Some [of_nat (s1 * 4 + s2 div 16)]"
  using assms by (simp add: b64_value_char b64_char_not_pad)

lemma a2b_encode: "a2b_base64 0 0 0 (b64encode bs) = Some bs"
proof (induction bs rule: b64encode.induct)
  case 1
  then show ?case by simp
next
  case (2 a)
  show ?case
    unfolding b64encode.simps
    by (subst a2b_pad2) (simp_all only: sextets bytes_back)
next
  case (3 a b)
  show ?case
    unfolding b64encode.simps
    by (subst a2b_pad1) (simp_all only: sextets bytes_back)
next
  case (4 a b c rest)
  show ?case
    unfolding b64encode.simps append.simps
    by (subst a2b_quad) (simp_all only: sextets bytes_back 4 option.map)
qed

lemma b64encode_ascii: "\<forall>c \<in> set (b64encode bs). \<not> 128 \<le> (of_char c :: nat)"
  by (induction bs rule: b64encode.induct) (auto simp: b64_char_ascii sextets not_le)

lemma b64decode_b64encode: "b64decode (b64encode bs) = Some bs"
  using b64encode_ascii [of bs] by (simp add: b64decode_def a2b_encode)

subsection \<open>Padding and chaining\<close>

lemma pad_len_bounds: "0 < 16 - n mod 16" "16 - n mod 16 \<le> (16::nat)"
  by simp_all

lemma length_pad: "length (pad bs) = length bs + (16 - length bs mod 16)"
  by (simp add: pad_def Let_def)

lemma length_pad_mod: "length (pad bs) mod 16 = 0"
  unfolding length_pad by presburger

lemma unat_pad_byte: "n \<le> 16 \<Longrightarrow> unat (of_nat n :: byte) = n"
  by (simp add: unat_of_nat)

lemma unpad_pad: "unpad (pad bs) = Some bs"
proof -
  define n where "n = 16 - length bs mod 16"
  have n: "0 < n" "n \<le> 16" by (simp_all add: n_def)
  have p: "pad bs = bs @ replicate n (of_nat n)" by (simp add: pad_def n_def Let_def)
  have l: "last (pad bs) = of_nat n" using n by (simp add: p)
  have m: "length (pad bs) mod 16 = 0" by (rule length_pad_mod)
  have u: "unat (of_nat n :: byte) = n" using n by (simp add: unat_pad_byte)
  show ?thesis
    unfolding unpad_def Let_def l u using n m
    by (simp add: p)
qed

lemma unpad_Some:
  assumes "unpad ps = Some bs"
  shows "ps = pad bs"
proof -
  define n where "n = unat (last ps)"
  from assms have ne: "length ps \<noteq> 0" and m: "length ps mod 16 = 0"
    and n1: "1 \<le> n" and n2: "n \<le> 16" "n \<le> length ps"
    and d: "drop (length ps - n) ps = replicate n (last ps)"
    and t: "bs = take (length ps - n) ps"
    unfolding unpad_def n_def by (auto simp: Let_def split: if_splits)
  have lb: "length bs = length ps - n" using t by simp
  have "16 dvd length bs + n" using lb n2 m by (simp add: dvd_eq_mod_eq_0)
  then obtain k where k: "length bs + n = 16 * k" by (elim dvdE)
  have pl: "16 - length bs mod 16 = n"
  proof (cases "n = 16")
    case True
    with k have "length bs = 16 * (k - 1)" by simp
    then show ?thesis using True by simp
  next
    case False
    with n2 have n16: "n < 16" by simp
    define m where "m = 16 - n"
    have mn: "m + n = 16" "m < 16" using n1 n16 by (simp_all add: m_def)
    from k n1 obtain j where j: "k = Suc j" by (cases k) simp_all
    have "length bs + n = (m + 16 * j) + n" using k j mn by simp
    then have "length bs = m + 16 * j" by simp
    then have "length bs mod 16 = m" using mn by simp
    then have "length bs mod 16 = 16 - n" by (simp add: m_def)
    then show ?thesis using n16 n1 by simp
  qed
  have "last ps = of_nat n" by (simp add: n_def)
  then have "ps = bs @ replicate n (of_nat n)"
    using d t append_take_drop_id [of "length ps - n" ps] by simp
  then show ?thesis by (simp add: pad_def pl Let_def)
qed

lemma blocks_Nil: "blocks [] = []"
  by (subst blocks.simps) simp

lemma blocks_append: "length b = 16 \<Longrightarrow> blocks (b @ rest) = b # blocks rest"
  by (subst blocks.simps) auto

lemma blocks_concat: "\<forall>b \<in> set bss. length b = 16 \<Longrightarrow> blocks (concat bss) = bss"
  by (induction bss) (simp_all add: blocks_Nil blocks_append)

lemma concat_blocks: "concat (blocks bs) = bs"
  by (induction bs rule: blocks.induct) (subst blocks.simps, simp)

lemma blocks_length:
  "length bs mod 16 = 0 \<Longrightarrow> \<forall>b \<in> set (blocks bs). length b = 16"
proof (induction bs rule: blocks.induct)
  case (1 bs)
  show ?case
  proof (cases "bs = []")
    case True
    then show ?thesis by (simp add: blocks_Nil)
  next
    case False
    from "1.prems" have d: "16 dvd length bs" by (simp only: dvd_eq_mod_eq_0)
    from False have "0 < length bs" by simp
    with d have len: "16 \<le> length bs" by (rule dvd_imp_le)
    have "16 dvd length bs - 16" using d by (rule dvd_diff_nat) simp
    then have "length (drop 16 bs) mod 16 = 0" by (simp only: length_drop dvd_eq_mod_eq_0)
    with "1.IH" False have tl: "\<forall>b \<in> set (blocks (drop 16 bs)). length b = 16" by blast
    have hd: "length (take 16 bs) = 16" using len by simp
    have eq: "blocks bs = take 16 bs # blocks (drop 16 bs)"
      using False by (subst blocks.simps) simp
    have "\<forall>b \<in> set (take 16 bs # blocks (drop 16 bs)). length b = 16"
      using tl hd by (simp only: list.set ball_simps)
    then show ?thesis by (simp only: eq)
  qed
qed

lemma xor_bytes_cancel: "length p = length q \<Longrightarrow> xor_bytes (xor_bytes p q) q = p"
  unfolding xor_bytes_def
  by (induction p q rule: list_induct2) (simp_all add: xor.assoc)

lemma length_xor_bytes: "length (xor_bytes p q) = min (length p) (length q)"
  by (simp add: xor_bytes_def)

lemma cbc_dec_enc:
  assumes "\<And>b. length b = 16 \<Longrightarrow> length (E b) = 16 \<and> D (E b) = b"
  shows "length prev = 16 \<Longrightarrow> \<forall>p \<in> set ps. length p = 16 \<Longrightarrow>
         cbc_dec_blocks D prev (cbc_enc_blocks E prev ps) = ps"
proof (induction ps arbitrary: prev)
  case Nil
  then show ?case by simp
next
  case (Cons p ps)
  have lx: "length (xor_bytes p prev) = 16" using Cons.prems by (simp add: length_xor_bytes)
  have "length (E (xor_bytes p prev)) = 16" "D (E (xor_bytes p prev)) = xor_bytes p prev"
    using assms [OF lx] by simp_all
  then show ?case using Cons by (simp add: Let_def xor_bytes_cancel)
qed

lemma cbc_enc_dec:
  assumes "\<And>b. length b = 16 \<Longrightarrow> length (D b) = 16 \<and> E (D b) = b"
  shows "length prev = 16 \<Longrightarrow> \<forall>c \<in> set cs. length c = 16 \<Longrightarrow>
         cbc_enc_blocks E prev (cbc_dec_blocks D prev cs) = cs"
proof (induction cs arbitrary: prev)
  case Nil
  then show ?case by simp
next
  case (Cons c cs)
  have c: "length c = 16" using Cons.prems by simp
  have "length (D c) = 16" "E (D c) = c" using assms [OF c] by simp_all
  then show ?case using Cons by (simp add: Let_def xor_bytes_cancel)
qed

lemma cbc_enc_lengths:
  assumes "\<And>b. length b = 16 \<Longrightarrow> length (E b) = 16"
  shows "length prev = 16 \<Longrightarrow> \<forall>p \<in> set ps. length p = 16 \<Longrightarrow>
         \<forall>c \<in> set (cbc_enc_blocks E prev ps). length c = 16"
proof (induction ps arbitrary: prev)
  case Nil
  then show ?case by simp
next
  case (Cons p ps)
  have "length (xor_bytes p prev) = 16" using Cons.prems by (simp add: length_xor_bytes)
  then have e: "length (E (xor_bytes p prev)) = 16" by (rule assms)
  have ps: "\<forall>p \<in> set ps. length p = 16" using Cons.prems(2) by simp
  have "\<forall>c \<in> set (cbc_enc_blocks E (E (xor_bytes p prev)) ps). length c = 16"
    using e ps by (rule Cons.IH)
  then show ?case using e by (simp add: Let_def)
qed

lemma cbc_dec_lengths:
  assumes "\<And>b. length b = 16 \<Longrightarrow> length (D b) = 16"
  shows "length prev = 16 \<Longrightarrow> \<forall>c \<in> set cs. length c = 16 \<Longrightarrow>
         \<forall>p \<in> set (cbc_dec_blocks D prev cs). length p = 16"
proof (induction cs arbitrary: prev)
  case Nil
  then show ?case by simp
next
  case (Cons c cs)
  have c: "length c = 16" using Cons.prems(2) by simp
  then have d: "length (D c) = 16" by (rule assms)
  have cs: "\<forall>c \<in> set cs. length c = 16" using Cons.prems(2) by simp
  have "\<forall>p \<in> set (cbc_dec_blocks D c cs). length p = 16"
    using c cs by (rule Cons.IH)
  then show ?case using d Cons.prems(1) by (simp add: length_xor_bytes)
qed

lemma length_cbc_enc_blocks: "length (cbc_enc_blocks E prev ps) = length ps"
  by (induction ps arbitrary: prev) (simp_all add: Let_def)

lemma length_cbc_dec_blocks: "length (cbc_dec_blocks D prev cs) = length cs"
  by (induction cs arbitrary: prev) simp_all

lemma length_concat16: "\<forall>b \<in> set bss. length b = 16 \<Longrightarrow> length (concat bss) = 16 * length bss"
  by (induction bss) simp_all

lemma aes_cbc_roundtrip:
  assumes ok: "block_cipher_ok C k" and k: "length k = 32" and iv: "length iv = 16"
    and d: "length data mod 16 = 0"
  shows "\<exists>ct. aes_cbc_encrypt C k iv data = Some ct \<and> length ct = length data \<and>
           aes_cbc_decrypt C k iv ct = Some data"
proof -
  let ?E = "encrypt_block C k" and ?D = "decrypt_block C k"
  let ?cs = "cbc_enc_blocks ?E iv (blocks data)"
  have E: "\<And>b. length b = 16 \<Longrightarrow> length (?E b) = 16 \<and> ?D (?E b) = b"
    using ok by (simp add: block_cipher_ok_def)
  have bl: "\<forall>p \<in> set (blocks data). length p = 16" using d by (rule blocks_length)
  have cl: "\<forall>c \<in> set ?cs. length c = 16"
    using cbc_enc_lengths [of ?E iv "blocks data"] E iv bl by blast
  have enc: "aes_cbc_encrypt C k iv data = Some (concat ?cs)"
    using k iv d by (simp add: aes_cbc_encrypt_def)
  have n: "length ?cs = length (blocks data)"
    by (rule length_cbc_enc_blocks)
  have dec: "aes_cbc_decrypt C k iv (concat ?cs) = Some data"
    using k iv cl cbc_dec_enc [of ?E ?D iv "blocks data"] E bl
    by (simp add: aes_cbc_decrypt_def length_concat16 blocks_concat concat_blocks)
  have len: "length (concat ?cs) = length data"
    using cl bl n length_concat16 [of ?cs] length_concat16 [of "blocks data"]
    by (simp add: concat_blocks)
  show ?thesis using enc dec len by simp
qed

subsection \<open>The encryption envelope\<close>

lemma xor_cipher_ok: "16 \<le> length k \<Longrightarrow> block_cipher_ok xor_cipher k"
  by (simp add: block_cipher_ok_def xor_cipher_def length_xor_bytes xor_bytes_cancel)

lemma demo_engine_ok:
  "block_cipher_ok xor_cipher (key_hash demo_engine)" "length (key_hash demo_engine) = 32"
  by (simp_all add: xor_cipher_ok demo_engine_def)

lemma aes_cbc_decrypt_encrypt:
  assumes ok: "block_cipher_ok C k" and dec: "aes_cbc_decrypt C k iv ct = Some p"
  shows "aes_cbc_encrypt C k iv p = Some ct \<and> length p = length ct"
proof -
  let ?E = "encrypt_block C k" and ?D = "decrypt_block C k"
  from dec have k: "length k \<in> {16, 24, 32}" and iv: "length iv = 16"
    and m: "length ct mod 16 = 0"
    and p: "p = concat (cbc_dec_blocks ?D iv (blocks ct))"
    by (auto simp: aes_cbc_decrypt_def split: if_splits)
  have D: "\<And>b. length b = 16 \<Longrightarrow> length (?D b) = 16 \<and> ?E (?D b) = b"
    using ok by (simp add: block_cipher_ok_def)
  have D': "\<And>b. length b = 16 \<Longrightarrow> length (?D b) = 16" using D by blast
  have cl: "\<forall>c \<in> set (blocks ct). length c = 16" using m by (rule blocks_length)
  have pl: "\<forall>q \<in> set (cbc_dec_blocks ?D iv (blocks ct)). length q = 16"
    using cbc_dec_lengths [of ?D iv "blocks ct"] D' iv cl by blast
  have bp: "blocks p = cbc_dec_blocks ?D iv (blocks ct)"
    unfolding p using pl by (rule blocks_concat)
  have lenp: "length p = 16 * length (blocks ct)"
    unfolding p using pl by (simp add: length_concat16 length_cbc_dec_blocks)
  have lenc: "length ct = 16 * length (blocks ct)"
    using length_concat16 [OF cl] by (simp add: concat_blocks)
  have bk: "cbc_enc_blocks ?E iv (cbc_dec_blocks ?D iv (blocks ct)) = blocks ct"
    using cbc_enc_dec [of ?D ?E iv "blocks ct"] D iv cl by blast
  have "aes_cbc_encrypt C k iv p = Some (concat (blocks ct))"
    using k iv lenp by (auto simp: aes_cbc_encrypt_def bp bk)
  then show ?thesis using lenp lenc by (simp add: concat_blocks)
qed

lemma decrypt_template_SomeD:
  assumes "decrypt_template C self s = Some v"
  obtains data padded where "b64decode s = Some data"
    "aes_cbc_decrypt C (key_hash self) (take 16 data) (drop 16 data) = Some padded"
    "unpad padded = Some (tobytes v)"
proof -
  from assms obtain data where d: "b64decode s = Some data"
    by (auto simp: decrypt_template_def split: option.splits)
  with assms obtain padded where
    p: "aes_cbc_decrypt C (key_hash self) (take 16 data) (drop 16 data) = Some padded"
    by (auto simp: decrypt_template_def Let_def split: option.splits)
  with assms d obtain bs where u: "unpad padded = Some bs" and f: "frombuffer bs = Some v"
    by (auto simp: decrypt_template_def Let_def split: option.splits)
  from f have "tobytes v = bs" by (rule tobytes_frombuffer)
  with u have "unpad padded = Some (tobytes v)" by simp
  with d p show ?thesis by (rule that)
qed

lemma not_valid_base64: "b64decode ''not-valid-base64!!!'' = None"
  by (simp add: b64decode_def b64_value_def)

lemma encrypt_then_decrypt:
  assumes ok: "block_cipher_ok C (key_hash self)"
    and key: "length (key_hash self) = 32"
    and iv: "length iv = 16"
  shows "\<exists>blob. encrypt_template C self iv T = Some blob
           \<and> decrypt_template C self blob = Some (template T)"
proof -
  let ?padded = "pad (tobytes (template T))"
  have m: "length ?padded mod 16 = 0" by (rule length_pad_mod)
  from aes_cbc_roundtrip [OF ok key iv m] obtain ct where
    enc: "aes_cbc_encrypt C (key_hash self) iv ?padded = Some ct"
    and dec: "aes_cbc_decrypt C (key_hash self) iv ct = Some ?padded"
    by blast
  have e: "encrypt_template C self iv T = Some (b64encode (iv @ ct))"
    by (simp add: encrypt_template_def enc Let_def)
  have d: "decrypt_template C self (b64encode (iv @ ct)) = Some (template T)"
    using iv by (simp add: decrypt_template_def b64decode_b64encode dec unpad_pad
        frombuffer_tobytes Let_def)
  from e d show ?thesis by blast
qed

lemma pad_append_block: "length p = 16 \<Longrightarrow> pad (p @ bs) = p @ pad bs"
  by (simp add: pad_def Let_def)

lemma frombuffer_total: "length bs mod 4 = 0 \<Longrightarrow> \<exists>ws. frombuffer bs = Some ws"
proof (induction bs rule: frombuffer.induct)
  case 1
  then show ?case by simp
next
  case (2 a b c d rest)
  from "2.prems" have "length rest mod 4 = 0" by simp
  with "2.IH" obtain ws where "frombuffer rest = Some ws" by blast
  then show ?case by simp
qed simp_all

lemma tobytes_inj: "tobytes a = tobytes b \<Longrightarrow> a = b"
proof -
  assume "tobytes a = tobytes b"
  then have "frombuffer (tobytes a) = frombuffer (tobytes b)" by simp
  then show "a = b" by (simp add: frombuffer_tobytes)
qed

lemma tobytes_append: "tobytes (xs @ ys) = tobytes xs @ tobytes ys"
  by (induction xs) simp_all

lemma tobytes_drop: "tobytes (drop n ws) = drop (4 * n) (tobytes ws)"
proof -
  have "tobytes ws = tobytes (take n ws) @ tobytes (drop n ws)"
    by (simp add: tobytes_append [symmetric])
  moreover have "length (tobytes (take n ws)) = 4 * min (length ws) n"
    by (simp add: length_tobytes)
  ultimately show ?thesis
    by (cases "n \<le> length ws") (simp_all add: min_def length_tobytes)
qed

lemma xor_bytes_same_left:
  "length p = length a \<Longrightarrow> length p = length b \<Longrightarrow> xor_bytes p a = xor_bytes p b \<Longrightarrow> a = b"
proof (induction p arbitrary: a b)
  case Nil
  then show ?case by simp
next
  case (Cons x p)
  then obtain y a' z b' where ab: "a = y # a'" "b = z # b'"
    by (cases a; cases b) auto
  with Cons.prems have "x XOR y = x XOR z" and t: "xor_bytes p a' = xor_bytes p b'"
    and l: "length p = length a'" "length p = length b'"
    by (simp_all add: xor_bytes_def)
  from \<open>x XOR y = x XOR z\<close> have "x XOR (x XOR y) = x XOR (x XOR z)" by simp
  then have "y = z" by (simp add: xor.assoc [symmetric])
  moreover from Cons.IH [OF l t] have "a' = b'" .
  ultimately show ?case using ab by simp
qed

text \<open>What decryption under a different IV recovers.\<close>

lemma decrypt_with_other_iv:
  assumes ok: "block_cipher_ok C (key_hash self)"
    and key: "length (key_hash self) = 32"
    and iv: "length iv = 16" and iv': "length iv' = 16" and ne: "iv' \<noteq> iv"
    and len: "4 \<le> length (template T)"
    and enc: "aes_cbc_encrypt C (key_hash self) iv (pad (tobytes (template T))) = Some ct"
  shows "\<exists>v. decrypt_template C self (b64encode (iv' @ ct)) = Some v
           \<and> length v = length (template T) \<and> v \<noteq> template T
           \<and> drop 4 v = drop 4 (template T)"
proof -
  let ?E = "encrypt_block C (key_hash self)" and ?D = "decrypt_block C (key_hash self)"
  let ?tb = "tobytes (template T)"
  define p1 where "p1 = take 16 ?tb"
  define tb2 where "tb2 = drop 16 ?tb"
  have ltb: "length ?tb = 4 * length (template T)" by (rule length_tobytes)
  with len have ge: "16 \<le> length ?tb" by simp
  then have lp1: "length p1 = 16" by (simp add: p1_def)
  have tb: "?tb = p1 @ tb2" by (simp add: p1_def tb2_def)
  have tb2: "tb2 = tobytes (drop 4 (template T))" by (simp add: tb2_def tobytes_drop)
  have E: "\<And>b. length b = 16 \<Longrightarrow> length (?E b) = 16 \<and> ?D (?E b) = b"
    using ok by (simp add: block_cipher_ok_def)
  have E': "\<And>b. length b = 16 \<Longrightarrow> length (?E b) = 16" using E by blast
  define ps2 where "ps2 = blocks (pad tb2)"
  have m2: "length (pad tb2) mod 16 = 0" by (rule length_pad_mod)
  have l2: "\<forall>q \<in> set ps2. length q = 16" unfolding ps2_def using m2 by (rule blocks_length)
  have padded: "pad ?tb = p1 @ pad tb2" unfolding tb using lp1 by (rule pad_append_block)
  have bl: "blocks (pad ?tb) = p1 # ps2"
    unfolding padded ps2_def using lp1 by (rule blocks_append)
  define c1 where "c1 = ?E (xor_bytes p1 iv)"
  define cs2 where "cs2 = cbc_enc_blocks ?E c1 ps2"
  have lx: "length (xor_bytes p1 iv) = 16" using lp1 iv by (simp add: length_xor_bytes)
  have lc1: "length c1 = 16" and dc1: "?D c1 = xor_bytes p1 iv"
    using E [OF lx] by (simp_all add: c1_def)
  have lcs2: "\<forall>c \<in> set cs2. length c = 16"
    unfolding cs2_def using cbc_enc_lengths [of ?E c1 ps2] E' lc1 l2 by blast
  have ct: "ct = c1 @ concat cs2"
    using enc key iv by (simp add: aes_cbc_encrypt_def bl Let_def c1_def cs2_def length_pad_mod)
  have blct: "blocks ct = c1 # cs2"
    unfolding ct using lc1 lcs2 by (simp add: blocks_append blocks_concat)
  have tail: "cbc_dec_blocks ?D c1 cs2 = ps2"
    unfolding cs2_def using cbc_dec_enc [of ?E ?D c1 ps2] E lc1 l2 by blast
  define p1' where "p1' = xor_bytes (xor_bytes p1 iv) iv'"
  have lp1': "length p1' = 16" using lx iv' by (simp add: p1'_def length_xor_bytes)
  have lct: "length ct mod 16 = 0"
    unfolding ct using lc1 length_concat16 [OF lcs2] by simp
  have dec: "aes_cbc_decrypt C (key_hash self) iv' ct = Some (p1' @ pad tb2)"
    using key iv' lct
    by (simp add: aes_cbc_decrypt_def blct dc1 tail p1'_def ps2_def concat_blocks)
  have pd: "p1' @ pad tb2 = pad (p1' @ tb2)"
    using lp1' by (rule pad_append_block [symmetric])
  have "length (p1' @ tb2) mod 4 = 0"
    using lp1' by (simp add: tb2 length_tobytes)
  from frombuffer_total [OF this] obtain v where v: "frombuffer (p1' @ tb2) = Some v" ..
  then have tv: "tobytes v = p1' @ tb2" by (rule tobytes_frombuffer)
  have d: "decrypt_template C self (b64encode (iv' @ ct)) = Some v"
    using iv' by (simp add: decrypt_template_def b64decode_b64encode dec pd unpad_pad v Let_def)
  have "4 * length v = 4 * length (template T)"
    using tv tb lp1 lp1' ltb length_tobytes [of v] by simp
  then have lv: "length v = length (template T)" by simp
  have nv: "v \<noteq> template T"
  proof
    assume "v = template T"
    with tv tb have "p1' @ tb2 = p1 @ tb2" by simp
    then have "p1' = p1" by simp
    then have "xor_bytes (xor_bytes p1 iv) iv' = xor_bytes (xor_bytes p1 iv) iv"
      using lp1 iv by (simp add: p1'_def xor_bytes_cancel)
    then have "iv' = iv"
      using lx iv iv' xor_bytes_same_left [of "xor_bytes p1 iv" iv' iv] by simp
    with ne show False by simp
  qed
  have "tobytes (drop 4 v) = tb2" using lp1' by (simp add: tobytes_drop tv)
  then have dv: "drop 4 v = drop 4 (template T)" unfolding tb2 by (rule tobytes_inj)
  from d lv nv dv show ?thesis by blast
qed

subsection \<open>Matching\<close>

lemma shapes_not_aligned_nonempty: "shapes_not_aligned n m \<noteq> []"
  by (simp add: shapes_not_aligned_def)

lemma finite_values_map_Fin: "finite_values (map Fin xs) = Some xs"
  by (induction xs) simp_all

lemma dot_self_nonneg: "0 \<le> dot xs xs"
  unfolding dot_def by (induction xs) simp_all

lemma dot_self_pos: "\<exists>x \<in> set xs. x \<noteq> 0 \<Longrightarrow> 0 < dot xs xs"
proof (induction xs)
  case Nil
  then show ?case by simp
next
  case (Cons a xs)
  have t: "0 \<le> dot xs xs" by (rule dot_self_nonneg)
  show ?case
  proof (cases "a = 0")
    case True
    with Cons show ?thesis by (simp add: dot_def)
  next
    case False
    then have "0 < a * a" by (auto simp: zero_less_mult_iff linorder_neq_iff)
    with t show ?thesis by (simp add: dot_def add_pos_nonneg)
  qed
qed

lemma norm_diff_self: "norm_diff (map Fin xs) (map Fin xs) = Fin 0"
proof -
  have "sum_list (map (\<lambda>d. d * d) (map2 (-) xs xs)) = 0"
    by (induction xs) simp_all
  then show ?thesis by (simp add: norm_diff_def finite_values_map_Fin)
qed

lemma cosine_self:
  assumes "\<exists>x \<in> set xs. x \<noteq> 0"
  shows "cosine (map Fin xs) (map Fin xs) = Inr (Fin 0)"
proof -
  have p: "0 < dot xs xs" using assms by (rule dot_self_pos)
  then have s: "sqrt (dot xs xs * dot xs xs) = dot xs xs" by simp
  show ?thesis using p by (simp add: cosine_def finite_values_map_Fin Let_def s)
qed

lemma self_match_try:
  assumes "\<exists>x \<in> set T. x \<noteq> 0" and "0 < threshold"
  shows "match_templates C self (Array (map Fin T)) (Array (map Fin T)) threshold =
     \<lparr>match = True, confidence = Fin 1, distance = Some (Fin 0), similarity = Some (Fin 1),
      error = None\<rparr>"
proof -
  from assms(1) have "T \<noteq> []" by auto
  then have l: "sqrt (real (length T)) \<noteq> 0" by simp
  show ?thesis
    using l assms(2)
    by (simp add: match_templates_def match_templates_try_def decrypt_if_needed_def
        cosine_self [OF assms(1)] norm_diff_self Let_def)
qed

section \<open>The claims\<close>

text \<open>
  C1 (round trip). For every template whose feature array is a float32 array,
  \<open>decrypt_template (encrypt_template T)\<close> is not \<open>None\<close> and is the array of
  \<open>T\<close>, bit for bit (hence within any floating-point tolerance), whatever 16-byte IV the
  call draws. The engine's key hash is a SHA-256 digest (32 bytes) and the block cipher is
  invertible on 16-byte blocks.
\<close>

theorem encrypt_decrypt_round_trip:
  assumes "block_cipher_ok C (key_hash self)"
    and "length (key_hash self) = 32"
    and "length iv = 16"
  shows "\<exists>blob. encrypt_template C self iv T = Some blob
           \<and> decrypt_template C self blob = Some (template T)"
  using assms by (rule encrypt_then_decrypt)

theorem encrypt_decrypt_round_trip_witness:
  "block_cipher_ok xor_cipher (key_hash demo_engine) \<and> length (key_hash demo_engine) = 32
   \<and> length (replicate 16 (7 :: byte)) = 16
   \<and> (\<exists>blob. encrypt_template xor_cipher demo_engine (replicate 16 7) demo_template = Some blob
         \<and> decrypt_template xor_cipher demo_engine blob
             = Some [1065353216, 1073741824, 0, 3212836864, 1056964608])"
  using encrypt_decrypt_round_trip [of xor_cipher demo_engine "replicate 16 7" demo_template]
    demo_engine_ok
  by (simp add: demo_template_def)

text \<open>
  C9 (fail closed). \<open>decrypt_template\<close> is a total function into an optional array:
  every exception of its body is the result \<open>None\<close>. It returns \<open>None\<close> for
  malformed base64 (in particular for the text \<open>not-valid-base64!!!\<close>), for decoded data
  that is shorter than an IV and one block or not a whole number of blocks (truncated
  data), and for a ciphertext whose padding check fails. Whenever it returns an array, the
  decoded input is exactly IV followed by the ciphertext of that array under the engine's key:
  an input that is not a valid encryption is never accepted.
\<close>

theorem decrypt_template_fails_closed:
  assumes ok: "block_cipher_ok C (key_hash self)"
  shows "(b64decode s = None \<longrightarrow> decrypt_template C self s = None)
    \<and> (\<forall>data. b64decode s = Some data \<and> (length data < 32 \<or> length data mod 16 \<noteq> 0)
          \<longrightarrow> decrypt_template C self s = None)
    \<and> (\<forall>data padded. b64decode s = Some data
          \<and> aes_cbc_decrypt C (key_hash self) (take 16 data) (drop 16 data) = Some padded
          \<and> unpad padded = None
          \<longrightarrow> decrypt_template C self s = None)
    \<and> decrypt_template C self ''not-valid-base64!!!'' = None
    \<and> (\<forall>v. decrypt_template C self s = Some v \<longrightarrow>
          (\<exists>iv ct. length iv = 16
             \<and> aes_cbc_encrypt C (key_hash self) iv (pad (tobytes v)) = Some ct
             \<and> b64decode s = Some (iv @ ct)))"
proof (intro conjI allI impI)
  assume "b64decode s = None"
  then show "decrypt_template C self s = None" by (simp add: decrypt_template_def)
next
  fix data
  assume a: "b64decode s = Some data \<and> (length data < 32 \<or> length data mod 16 \<noteq> 0)"
  show "decrypt_template C self s = None"
  proof (rule ccontr)
    assume "decrypt_template C self s \<noteq> None"
    then obtain v where v: "decrypt_template C self s = Some v" by blast
    from v obtain data' padded where d: "b64decode s = Some data'"
      and p: "aes_cbc_decrypt C (key_hash self) (take 16 data') (drop 16 data') = Some padded"
      and u: "unpad padded = Some (tobytes v)"
      by (rule decrypt_template_SomeD)
    from a d have dd: "data' = data" by simp
    note p = p [unfolded dd]
    from p have l16: "length (take 16 data) = 16" and m: "length (drop 16 data) mod 16 = 0"
      by (auto simp: aes_cbc_decrypt_def split: if_splits)
    from l16 have ge: "16 \<le> length data" by simp
    from aes_cbc_decrypt_encrypt [OF ok p] have lp: "length padded = length data - 16"
      by simp
    from u have "padded \<noteq> []" by (auto simp: unpad_def)
    then have "0 < length padded" by simp
    with lp have gt: "16 < length data" by arith
    from u have pm: "length padded mod 16 = 0" by (auto simp: unpad_def Let_def split: if_splits)
    with lp have "16 dvd length data - 16" by (simp add: dvd_eq_mod_eq_0)
    then obtain j where j: "length data - 16 = 16 * j" by (elim dvdE)
    with gt have "j \<noteq> 0" by auto
    then have "1 \<le> j" by simp
    with j ge have "32 \<le> length data" by simp
    moreover from j ge have "length data = 16 * (j + 1)" by simp
    then have "length data mod 16 = 0" by simp
    ultimately show False using a by simp
  qed
next
  fix data padded
  assume "b64decode s = Some data
      \<and> aes_cbc_decrypt C (key_hash self) (take 16 data) (drop 16 data) = Some padded
      \<and> unpad padded = None"
  then show "decrypt_template C self s = None" by (simp add: decrypt_template_def Let_def)
next
  show "decrypt_template C self ''not-valid-base64!!!'' = None"
    by (simp add: decrypt_template_def not_valid_base64)
next
  fix v
  assume "decrypt_template C self s = Some v"
  then obtain data padded where d: "b64decode s = Some data"
    and p: "aes_cbc_decrypt C (key_hash self) (take 16 data) (drop 16 data) = Some padded"
    and u: "unpad padded = Some (tobytes v)"
    by (rule decrypt_template_SomeD)
  from p have l16: "length (take 16 data) = 16"
    by (auto simp: aes_cbc_decrypt_def split: if_splits)
  from u have "padded = pad (tobytes v)" by (rule unpad_Some)
  with aes_cbc_decrypt_encrypt [OF ok p]
  have "aes_cbc_encrypt C (key_hash self) (take 16 data) (pad (tobytes v)) = Some (drop 16 data)"
    by simp
  moreover have "b64decode s = Some (take 16 data @ drop 16 data)" using d by simp
  ultimately show "\<exists>iv ct. length iv = 16
       \<and> aes_cbc_encrypt C (key_hash self) iv (pad (tobytes v)) = Some ct
       \<and> b64decode s = Some (iv @ ct)"
    using l16 by blast
qed

text \<open>
  C10 (no integrity check). Take a template of at least four float32 elements, encrypt it,
  decode the blob and change any one of its first 16 bytes (the IV). Decrypting the
  re-encoded blob does not fail: it returns an array of the same length, which differs from
  the original, and only within its first four elements.
\<close>

theorem decrypt_ignores_iv_tampering:
  assumes ok: "block_cipher_ok C (key_hash self)"
    and key: "length (key_hash self) = 32"
    and iv: "length iv = 16"
    and len: "4 \<le> length (template T)"
    and enc: "encrypt_template C self iv T = Some blob"
    and dec: "b64decode blob = Some data"
    and i: "i < 16" and b: "b \<noteq> data ! i"
  shows "\<exists>v. decrypt_template C self (b64encode (data[i := b])) = Some v
           \<and> length v = length (template T) \<and> v \<noteq> template T
           \<and> drop 4 v = drop 4 (template T)"
proof -
  from enc obtain ct where
    ct: "aes_cbc_encrypt C (key_hash self) iv (pad (tobytes (template T))) = Some ct"
    and blob: "blob = b64encode (iv @ ct)"
    by (auto simp: encrypt_template_def Let_def split: option.splits)
  from dec have data: "data = iv @ ct" by (simp add: blob b64decode_b64encode)
  have upd: "data[i := b] = iv[i := b] @ ct"
    using i iv by (simp add: data list_update_append)
  have "data ! i = iv ! i" using i iv by (simp add: data nth_append)
  with b have "(iv[i := b]) ! i \<noteq> iv ! i" using i iv by simp
  then have ne: "iv[i := b] \<noteq> iv" by metis
  have l: "length (iv[i := b]) = 16" using iv by simp
  show ?thesis
    unfolding upd by (rule decrypt_with_other_iv [OF ok key iv l ne len ct])
qed

end
